theory Spec2Isabelle
  imports Main "HOL-Library.Monad_Syntax"
begin

unbundle bit_operations_syntax

section \<open>Go strings, slicing and the library functions the package calls\<close>

text \<open>
  A Go \<open>string\<close> is a sequence of bytes: it is modelled as a \<open>char list\<close>, one \<open>char\<close>
  per byte. Indices are Go \<open>int\<close>s, modelled as \<open>int\<close> because \<open>strings.Index\<close> returns
  \<open>-1\<close>. A slice expression panics at run time ("slice bounds out of range") unless
  \<open>0 \<le> lo \<le> hi \<le> len(s)\<close>; the panic is the value \<open>None\<close>.
\<close>

type_synonym Message = string
type_synonym Entity = string

definition byte :: "char \<Rightarrow> nat" where
  "byte c = of_char c"

definition slice :: "string \<Rightarrow> int \<Rightarrow> int \<Rightarrow> string option" where
  \<comment> \<open>\<open>s[lo:hi]\<close>\<close>
  "slice s lo hi =
     (if 0 \<le> lo \<and> lo \<le> hi \<and> hi \<le> int (length s)
      then Some (take (nat hi - nat lo) (drop (nat lo) s)) else None)"

definition slice_from :: "string \<Rightarrow> int \<Rightarrow> string option" where
  \<comment> \<open>\<open>s[lo:]\<close>\<close>
  "slice_from s lo = slice s lo (int (length s))"

definition slice_to :: "string \<Rightarrow> int \<Rightarrow> string option" where
  \<comment> \<open>\<open>s[:hi]\<close>\<close>
  "slice_to s hi = slice s 0 hi"

fun Index :: "string \<Rightarrow> char \<Rightarrow> int" where
  \<comment> \<open>\<open>strings.Index(s, sep)\<close> for a one-byte \<open>sep\<close>: the first position of the byte, or \<open>-1\<close>\<close>
  "Index [] c = -1"
| "Index (x # xs) c =
     (if x = c then 0 else (let i = Index xs c in if i < 0 then -1 else i + 1))"

definition in_cutset :: "string \<Rightarrow> char \<Rightarrow> bool" where
  "in_cutset cutset c = (c \<in> set cutset)"

definition TrimLeft :: "string \<Rightarrow> string \<Rightarrow> string" where
  "TrimLeft s cutset = dropWhile (in_cutset cutset) s"

definition TrimRight :: "string \<Rightarrow> string \<Rightarrow> string" where
  "TrimRight s cutset = rev (dropWhile (in_cutset cutset) (rev s))"

definition Trim :: "string \<Rightarrow> string \<Rightarrow> string" where
  \<comment> \<open>\<open>strings.Trim\<close> with a cut set of ASCII bytes\<close>
  "Trim s cutset = TrimLeft (TrimRight s cutset) cutset"

definition upper_byte :: "char \<Rightarrow> char" where
  "upper_byte c = (if 97 \<le> byte c \<and> byte c \<le> 122 then char_of (byte c - 32) else c)"

definition ToUpper :: "string \<Rightarrow> string" where
  \<comment> \<open>\<open>strings.ToUpper\<close> on ASCII letters; bytes from \<open>0x80\<close> on are kept (the case
      mapping of runes beyond ASCII is outside this model, and no result below depends on it)\<close>
  "ToUpper s = map upper_byte s"

fun Split :: "string \<Rightarrow> char \<Rightarrow> string list" where
  \<comment> \<open>\<open>strings.Split(s, sep)\<close> for a one-byte \<open>sep\<close>\<close>
  "Split [] c = [[]]"
| "Split (x # xs) c =
     (if x = c then [] # Split xs c
      else (case Split xs c of [] \<Rightarrow> [[x]] | w # ws \<Rightarrow> (x # w) # ws))"

definition isdigit :: "char \<Rightarrow> bool" where
  "isdigit c = (48 \<le> byte c \<and> byte c \<le> 57)"

text \<open>
  \<open>strconv.Atoi\<close> on a 64-bit platform: an optional sign, then one or more decimal digits,
  read from left to right; the result must fit a signed 64-bit integer. \<open>None\<close> is the
  returned error (syntax or range).
\<close>

fun atoi_digits :: "int \<Rightarrow> string \<Rightarrow> int option" where
  "atoi_digits n [] = Some n"
| "atoi_digits n (ch # s) =
     (if isdigit ch then atoi_digits (n * 10 + (int (byte ch) - 48)) s else None)"

definition atoi_range :: "int \<Rightarrow> int option" where
  "atoi_range v = (if - (2 ^ 63) \<le> v \<and> v \<le> 2 ^ 63 - 1 then Some v else None)"

definition Atoi :: "string \<Rightarrow> int option" where
  "Atoi s0 =
     (case s0 of
        [] \<Rightarrow> None
      | c # s \<Rightarrow>
          if c = CHR ''-'' \<or> c = CHR ''+''
          then (if length s < 1 then None
                else do { n \<leftarrow> atoi_digits 0 s; atoi_range (if c = CHR ''-'' then - n else n) })
          else do { n \<leftarrow> atoi_digits 0 s0; atoi_range n })"

section \<open>message.go\<close>

definition NewMessage :: "string \<Rightarrow> Message" where
  "NewMessage s =
     (let r = Trim s [CHR 0x00, CHR 0x0A, CHR 0x0D]
      in if Index r (CHR 0x00) \<noteq> -1 then [] else r)"

definition IsEmpty :: "Message \<Rightarrow> bool" where
  "IsEmpty m = (length m = 0)"

definition HasPrefix :: "Message \<Rightarrow> bool" where
  "HasPrefix m = (if IsEmpty m then False else m ! 0 = CHR '':'')"

definition HasTrailing :: "Message \<Rightarrow> bool option" where
  "HasTrailing m =
     (if IsEmpty m then Some False
      else if HasPrefix m then do { s \<leftarrow> slice_from m 1; Some (Index s CHR '':'' > -1) }
      else Some (Index m CHR '':'' > -1))"

definition Prefix :: "Message \<Rightarrow> Entity option" where
  "Prefix m =
     (let c = (if \<not> HasPrefix m then [] else []);
          i = Index m CHR '' ''
      in if i > -1 then slice m 1 i else Some c)"

definition Command :: "Message \<Rightarrow> string option" where
  "Command m =
     (if IsEmpty m then Some []
      else if HasPrefix m then
        (let i = Index m CHR '' '' in
         if i > -1 \<and> i + 1 < int (length m)
         then do { s \<leftarrow> slice_from m (Index m CHR '' '' + 1);
                   t \<leftarrow> slice_to s (Index s CHR '' '');
                   Some (ToUpper t) }
         else Some [])
      else do { t \<leftarrow> slice_to m (Index m CHR '' ''); Some (ToUpper t) })"

definition IsNumeric :: "Message \<Rightarrow> bool option" where
  "IsNumeric m = do { c \<leftarrow> Command m; Some (Atoi c \<noteq> None) }"

definition Numeric :: "Message \<Rightarrow> int option" where
  "Numeric m = do { c \<leftarrow> Command m; Some (case Atoi c of None \<Rightarrow> -1 | Some v \<Rightarrow> v) }"

definition skip_prefix :: "string \<Rightarrow> string option option" where
  \<comment> \<open>the block "Skip prefix." shared by \<open>Middle\<close> and \<open>Trailing\<close>: \<open>Some None\<close> is the
      early \<open>return ""\<close>, \<open>None\<close> a panic\<close>
  "skip_prefix m =
     (if HasPrefix m then
        do { s \<leftarrow> slice_from m 1;
             let i = Index s CHR '' '';
             if i > -1 \<and> i + 1 < int (length s)
             then do { s' \<leftarrow> slice_from s (i + 1); Some (Some s') }
             else Some None }
      else Some (Some m))"

definition Middle :: "Message \<Rightarrow> string option" where
  "Middle m =
     (if IsEmpty m then Some []
      else do {
        r \<leftarrow> skip_prefix m;
        case r of None \<Rightarrow> Some []
        | Some s \<Rightarrow>
            let i = Index s CHR '' '' in
            if i > -1 \<and> i < int (length s)
            then do { s1 \<leftarrow> slice_from s (i + 1);
                      let j = Index s1 CHR '':'';
                      if j > -1 then do { s2 \<leftarrow> slice s1 0 j; Some (TrimRight s2 '' '') }
                      else Some s1 }
            else Some [] })"

definition Middles :: "Message \<Rightarrow> string list option" where
  "Middles m = do { s \<leftarrow> Middle m; Some (Split s CHR '' '') }"

definition Trailing :: "Message \<Rightarrow> string option" where
  "Trailing m =
     (if IsEmpty m then Some []
      else do {
        r \<leftarrow> skip_prefix m;
        case r of None \<Rightarrow> Some []
        | Some s \<Rightarrow>
            let i = Index s CHR '':'' in
            if i > -1 \<and> i + 1 < int (length s) then slice_from s (i + 1) else Some [] })"

definition Trailings :: "Message \<Rightarrow> string list option" where
  "Trailings m = do { s \<leftarrow> Trailing m; Some (Split s CHR '' '') }"

section \<open>entity.go\<close>

definition strings_HasPrefix :: "string \<Rightarrow> string \<Rightarrow> bool" where
  \<comment> \<open>\<open>strings.HasPrefix(s, prefix)\<close>\<close>
  "strings_HasPrefix s p = (length s \<ge> length p \<and> take (length p) s = p)"

definition IsChan :: "Entity \<Rightarrow> bool" where
  "IsChan e = (strings_HasPrefix e ''#'' \<and> length e > 1)"

definition IsHostmask :: "Entity \<Rightarrow> bool" where
  "IsHostmask e =
     (let a = Index e CHR ''!''; b = Index e CHR ''@'' in b > a \<and> a > -1)"

definition IsName :: "Entity \<Rightarrow> bool" where
  "IsName e = (\<not> IsChan e \<and> \<not> IsHostmask e)"

definition Nickname :: "Entity \<Rightarrow> string option" where
  "Nickname e =
     (let i = Index e CHR ''!'' in
      if i > 0 then slice_to e i
      else if length e > 0 then Some e
      else Some [])"

definition Username :: "Entity \<Rightarrow> string option" where
  "Username e =
     (let a = Index e CHR ''!''; b = Index e CHR ''@'' in
      if b > a \<and> a > -1 then slice e (a + 1) b else Some [])"

definition Hostname :: "Entity \<Rightarrow> string option" where
  "Hostname e =
     (let i = Index e CHR ''@'' in
      if i > 0 \<and> i + 1 < int (length e) then slice_from e (i + 1) else Some [])"

section \<open>utils.go\<close>

fun isNum :: "string \<Rightarrow> bool" where
  "isNum [] = True"
| "isNum (x # xs) = (if byte x < 48 \<or> byte x > 57 then False else isNum xs)"

text \<open>
  \<open>strings.Split(text, "")\<close> cuts the text after each UTF-8 sequence. \<open>rune_len\<close> is
  the size that \<open>utf8.DecodeRuneInString\<close> reports: the length of a well-formed
  sequence at the head of the string (2 to 4 bytes, with the ranges of the second byte
  that exclude overlong forms and code points that are no Unicode scalar values), and 1 for
  an ASCII byte or a byte that starts no well-formed sequence. The bytes are kept as they are.
\<close>

definition in_range :: "nat \<Rightarrow> nat \<Rightarrow> char \<Rightarrow> bool" where
  "in_range lo hi c = (lo \<le> byte c \<and> byte c \<le> hi)"

fun rune_len :: "string \<Rightarrow> nat" where
  "rune_len [] = 0"
| "rune_len (s0 # s) =
     (let b = byte s0;
          sz = (if 0xC2 \<le> b \<and> b \<le> 0xDF then 2
                else if 0xE0 \<le> b \<and> b \<le> 0xEF then 3
                else if 0xF0 \<le> b \<and> b \<le> 0xF4 then 4 else 1);
          lo = (if b = 0xE0 then 0xA0 else if b = 0xF0 then 0x90 else 0x80);
          hi = (if b = 0xED then 0x9F else if b = 0xF4 then 0x8F else 0xBF)
      in if sz = (1::nat) then 1
         else if Suc (length s) < sz then 1
         else if \<not> in_range lo hi (s ! 0) then 1
         else if sz \<le> 2 then 2
         else if \<not> in_range 0x80 0xBF (s ! 1) then 1
         else if sz \<le> 3 then 3
         else if \<not> in_range 0x80 0xBF (s ! 2) then 1
         else 4)"

fun explode :: "string \<Rightarrow> string list" where
  "explode [] = []"
| "explode (x # xs) =
     (let n = rune_len (x # xs) in (x # take (n - 1) xs) # explode (drop (n - 1) xs))"

text \<open>
  The loop of \<open>StripControlCodes\<close>: \<open>m\<close> is the mode, \<open>r\<close> the result built so far and
  the list is \<open>c[i:]\<close>, so that \<open>i++\<close> drops its head and \<open>continue\<close> without \<open>i++\<close>
  keeps it. \<open>c[i][0]\<close> on an empty element would panic (\<open>None\<close>).
\<close>

fun strip_loop :: "nat \<Rightarrow> string \<Rightarrow> string list \<Rightarrow> string option" where
  "strip_loop m r [] = Some r"
| "strip_loop m r (ci # rest) =
     (if m = 0 then
        (if ci = [] then None
         else if byte (ci ! 0) \<in> {0x02, 0x0F, 0x16, 0x1D, 0x1F} then strip_loop m r rest
         else if byte (ci ! 0) = 0x03 then strip_loop 1 r rest
         else strip_loop m (r @ ci) rest)
      else if m = 1 then
        (if isNum ci then strip_loop 2 r rest else strip_loop 0 r (ci # rest))
      else if m = 2 then
        (if isNum ci then strip_loop 3 r rest
         else if ci = '','' then strip_loop 4 r rest
         else strip_loop 0 r (ci # rest))
      else if m = 3 then
        (if ci = '','' then
           (if rest \<noteq> [] then
              (if isNum (rest ! 0) then strip_loop 4 r rest else strip_loop 0 r (ci # rest))
            else strip_loop 0 r (ci # rest))
         else strip_loop 0 r (ci # rest))
      else if m = 4 then
        (if isNum ci then strip_loop 5 r rest else strip_loop 0 r (ci # rest))
      else if m = 5 then
        (if isNum ci then strip_loop 0 r rest else strip_loop 0 r (ci # rest))
      else strip_loop m r rest)"

definition StripControlCodes :: "string \<Rightarrow> string option" where
  "StripControlCodes text = strip_loop 0 [] (explode text)"

type_synonym ChannelMode = int

definition CmVoice :: ChannelMode where "CmVoice = 1"
definition CmHalfOp :: ChannelMode where "CmHalfOp = 2"
definition CmOp :: ChannelMode where "CmOp = 4"
definition CmAdmin :: ChannelMode where "CmAdmin = 8"
definition CmOwner :: ChannelMode where "CmOwner = 16"

text \<open>The loop of \<open>ParseChannelModes\<close>: the list is \<open>s[i:]\<close>, \<open>cm\<close> the bits so far.\<close>

fun modes_loop :: "string \<Rightarrow> ChannelMode \<Rightarrow> string \<times> ChannelMode" where
  "modes_loop [] cm = ([], 0)"
| "modes_loop (x # xs) cm =
     (if x = CHR ''~'' then modes_loop xs (cm OR CmOwner)
      else if x = CHR ''&'' then modes_loop xs (cm OR CmAdmin)
      else if x = CHR ''@'' then modes_loop xs (cm OR CmOp)
      else if x = CHR ''%'' then modes_loop xs (cm OR CmHalfOp)
      else if x = CHR ''+'' then modes_loop xs (cm OR CmVoice)
      else (x # xs, cm))"

definition ParseChannelModes :: "string \<Rightarrow> string \<times> ChannelMode" where
  "ParseChannelModes s = modes_loop s 0"

section \<open>Notions used to state the results\<close>

text \<open>
  The channel mode sigils and the bit of each, and the union of the bits of a run of
  sigils, as the description of \<open>ParseChannelModes\<close> has them.
\<close>

definition is_sigil :: "char \<Rightarrow> bool" where
  "is_sigil c = (c \<in> set ''~&@%+'')"

definition sigil_mode :: "char \<Rightarrow> ChannelMode" where
  "sigil_mode c =
     (if c = CHR ''~'' then CmOwner else if c = CHR ''&'' then CmAdmin
      else if c = CHR ''@'' then CmOp else if c = CHR ''%'' then CmHalfOp
      else if c = CHR ''+'' then CmVoice else 0)"

definition or_modes :: "string \<Rightarrow> ChannelMode \<Rightarrow> ChannelMode" where
  "or_modes cs cm = fold (\<lambda>c acc. acc OR sigil_mode c) cs cm"

text \<open>The bytes that \<open>NewMessage\<close> trims: NUL, LF and CR.\<close>

definition trimmed_bytes :: "char set" where
  "trimmed_bytes = {CHR 0x00, CHR 0x0A, CHR 0x0D}"

text \<open>A line with a prefix, a command, middle parameters and a trailing parameter.\<close>

definition prefixed_line :: "string \<Rightarrow> string \<Rightarrow> string \<Rightarrow> string \<Rightarrow> Message" where
  "prefixed_line p cmd mid t = '':'' @ p @ '' '' @ cmd @ '' '' @ mid @ '' :'' @ t"

text \<open>
  A base-10 integer literal as \<open>strconv.Atoi\<close> accepts it: an optional sign and one or more
  decimal digits, with its value in positional notation within the range of a 64-bit \<open>int\<close>.
\<close>

fun dec_value :: "string \<Rightarrow> int" where
  "dec_value [] = 0"
| "dec_value (d # ds) = (int (byte d) - 48) * 10 ^ length ds + dec_value ds"

definition unsigned_part :: "string \<Rightarrow> string" where
  "unsigned_part c =
     (case c of [] \<Rightarrow> [] | x # r \<Rightarrow> if x = CHR ''+'' \<or> x = CHR ''-'' then r else c)"

definition signed_value :: "string \<Rightarrow> int" where
  "signed_value c =
     (case c of [] \<Rightarrow> 0
      | x # r \<Rightarrow> if x = CHR ''-'' then - dec_value r else dec_value (unsigned_part c))"

definition is_base10_int :: "string \<Rightarrow> bool" where
  "is_base10_int c =
     (unsigned_part c \<noteq> [] \<and> list_all isdigit (unsigned_part c) \<and>
      - (2 ^ 63) \<le> signed_value c \<and> signed_value c \<le> 2 ^ 63 - 1)"

text \<open>
  The bytes that start a formatting or color code, the bytes from \<open>0x80\<close> on, and the
  shape of an element of \<open>strings.Split(text, "")\<close>: not empty, with no code byte after
  its first byte.
\<close>

definition control_byte :: "char \<Rightarrow> bool" where
  "control_byte c = (byte c \<in> {0x02, 0x03, 0x0F, 0x16, 0x1D, 0x1F})"

definition high_byte :: "char \<Rightarrow> bool" where
  "high_byte c = (0x80 \<le> byte c)"

definition rune_ok :: "string \<Rightarrow> bool" where
  "rune_ok e = (e \<noteq> [] \<and> (\<forall>b \<in> set (tl e). \<not> control_byte b))"

section \<open>Results\<close>

subsection \<open>Facts about \<open>Index\<close> and slices\<close>

lemma Index_ge: "-1 \<le> Index s c"
  by (induction s) (auto simp: Let_def)

lemma Index_lt: "Index s c < int (length s)"
  by (induction s) (auto simp: Let_def)

lemma Index_notin: "c \<notin> set s \<Longrightarrow> Index s c = -1"
  by (induction s) (auto simp: Let_def)

lemma Index_first: "c \<notin> set u \<Longrightarrow> Index (u @ c # v) c = int (length u)"
  by (induction u) (auto simp: Let_def)

lemma Index_neg_iff: "Index s c = -1 \<longleftrightarrow> c \<notin> set s"
proof
  assume h: "Index s c = -1"
  show "c \<notin> set s"
  proof
    assume "c \<in> set s"
    then obtain u v where "s = u @ c # v" "c \<notin> set u" by (meson split_list_first)
    with h show False by (simp add: Index_first)
  qed
qed (simp add: Index_notin)

lemma Index_split:
  "c \<in> set s \<Longrightarrow> \<exists>u v. s = u @ c # v \<and> c \<notin> set u \<and> Index s c = int (length u)"
proof -
  assume "c \<in> set s"
  then obtain u v where "s = u @ c # v" "c \<notin> set u" by (meson split_list_first)
  then show ?thesis using Index_first by blast
qed

lemma Index_in: "0 \<le> Index s c \<longleftrightarrow> c \<in> set s"
  using Index_neg_iff [of s c] Index_ge [of s c] by arith

lemma slice_Some: "0 \<le> lo \<Longrightarrow> lo \<le> hi \<Longrightarrow> hi \<le> int (length s) \<Longrightarrow> slice s lo hi \<noteq> None"
  by (simp add: slice_def)

lemma slice_from_Some: "0 \<le> lo \<Longrightarrow> lo \<le> int (length s) \<Longrightarrow> slice_from s lo \<noteq> None"
  by (simp add: slice_from_def slice_def)

lemma slice_from_append: "slice_from (u @ v) (int (length u)) = Some v"
  by (simp add: slice_from_def slice_def)

lemma slice_from_Suc: "slice_from (u @ c # v) (int (length u) + 1) = Some v"
  using slice_from_append [of "u @ [c]" v] by (simp add: add.commute)

lemma slice_to_append: "slice (u @ v) 0 (int (length u)) = Some u"
  by (simp add: slice_def)

lemma slice_from_1: "slice_from (c # v) 1 = Some v"
  using slice_from_Suc [of "[]" c v] by simp

lemma slice_to_Index: "0 \<le> Index s c \<Longrightarrow> slice s 0 (Index s c) \<noteq> None"
  using Index_lt [of s c] by (simp add: slice_def)

lemma slice_to_Index_None: "slice_to t (Index t c) = None \<longleftrightarrow> c \<notin> set t"
  using Index_lt [of t c] Index_ge [of t c] Index_neg_iff [of t c]
  by (auto simp: slice_to_def slice_def)

subsection \<open>The accessors that return on every input\<close>

text \<open>
  \<open>HasTrailing\<close>, \<open>Middle\<close>, \<open>Middles\<close>, \<open>Trailing\<close>, \<open>Trailings\<close> and the accessors of
  \<open>Entity\<close> guard every slice expression: none of them panics.
\<close>

lemma HasTrailing_total: "HasTrailing m \<noteq> None"
  by (cases m) (simp_all add: HasTrailing_def IsEmpty_def slice_from_def slice_def)

lemma skip_prefix_total: "skip_prefix m \<noteq> None"
  by (cases m) (auto simp: skip_prefix_def HasPrefix_def IsEmpty_def slice_from_def slice_def Let_def)

lemma skip_prefix_cases:
  obtains "skip_prefix m = Some None" | s where "skip_prefix m = Some (Some s)"
  using skip_prefix_total [of m] by (cases "skip_prefix m") auto

lemma Trailing_total: "Trailing m \<noteq> None"
proof (cases m rule: skip_prefix_cases)
  case 1
  then show ?thesis by (simp add: Trailing_def)
next
  case (2 s)
  then show ?thesis by (simp add: Trailing_def Let_def slice_from_def slice_def)
qed

lemma Middle_total: "Middle m \<noteq> None"
proof (cases m rule: skip_prefix_cases)
  case 1
  then show ?thesis by (simp add: Middle_def)
next
  case (2 s)
  let ?i = "Index s CHR '' ''"
  show ?thesis
  proof (cases "?i > -1 \<and> ?i < int (length s)")
    case False
    with 2 show ?thesis by (auto simp: Middle_def Let_def)
  next
    case True
    then obtain s1 where s1: "slice_from s (?i + 1) = Some s1"
      using slice_from_Some [of "?i + 1" s] by auto
    let ?j = "Index s1 CHR '':''"
    show ?thesis
    proof (cases "?j > -1")
      case False
      with True 2 s1 show ?thesis by (simp add: Middle_def Let_def)
    next
      case j: True
      then obtain s2 where "slice s1 0 ?j = Some s2"
        using slice_to_Index [of s1 "CHR '':''"] by auto
      with j True 2 s1 show ?thesis by (simp add: Middle_def Let_def)
    qed
  qed
qed

lemma Middles_total: "Middles m \<noteq> None"
  using Middle_total [of m] by (auto simp: Middles_def)

lemma Trailings_total: "Trailings m \<noteq> None"
  using Trailing_total [of m] by (auto simp: Trailings_def)

lemma Nickname_total: "Nickname e \<noteq> None"
  using Index_lt [of e "CHR ''!''"] by (simp add: Nickname_def Let_def slice_to_def slice_def)

lemma Username_total: "Username e \<noteq> None"
  using Index_lt [of e "CHR ''@''"] by (simp add: Username_def Let_def slice_def)

lemma Hostname_total: "Hostname e \<noteq> None"
  by (simp add: Hostname_def Let_def slice_from_def slice_def)

subsection \<open>Command\<close>

text \<open>
  \<open>Command\<close> returns the command token in upper case when a space follows the token, and
  panics exactly when the line has a command token with no space after it.
\<close>

lemma Command_tail_None:
  "do { u \<leftarrow> slice_to t (Index t c); Some (ToUpper u) } = None \<longleftrightarrow> c \<notin> set t"
  using slice_to_Index_None [of t c] by (cases "slice_to t (Index t c)") simp_all

lemma Command_after_prefix:
  assumes "CHR '' '' \<notin> set p" "t \<noteq> []" "HasPrefix (p @ CHR '' '' # t)"
  shows "Command (p @ CHR '' '' # t) =
           do { u \<leftarrow> slice_to t (Index t CHR '' ''); Some (ToUpper u) }"
proof -
  let ?m = "p @ CHR '' '' # t"
  have i: "Index ?m CHR '' '' = int (length p)" using assms(1) by (rule Index_first)
  have s: "slice_from ?m (int (length p) + 1) = Some t" by (rule slice_from_Suc)
  show ?thesis
    unfolding Command_def using assms(2,3)
    by (simp only: i s) (simp add: IsEmpty_def)
qed

lemma Command_unprefixed:
  assumes "CHR '' '' \<notin> set tok" "\<not> HasPrefix (tok @ CHR '' '' # rest)"
  shows "Command (tok @ CHR '' '' # rest) = Some (ToUpper tok)"
proof -
  have "Index (tok @ CHR '' '' # rest) CHR '' '' = int (length tok)"
    using assms(1) by (rule Index_first)
  then show ?thesis using assms(2)
    by (simp add: Command_def IsEmpty_def slice_to_def slice_to_append)
qed

lemma Command_prefixed:
  assumes "CHR '' '' \<notin> set p" "CHR '' '' \<notin> set tok"
  shows "Command (CHR '':'' # p @ CHR '' '' # tok @ CHR '' '' # rest) = Some (ToUpper tok)"
proof -
  let ?t = "tok @ CHR '' '' # rest"
  have p: "CHR '' '' \<notin> set (CHR '':'' # p)" using assms(1) by simp
  have t: "?t \<noteq> []" by simp
  have h: "HasPrefix ((CHR '':'' # p) @ CHR '' '' # ?t)" by (simp add: HasPrefix_def IsEmpty_def)
  have j: "Index ?t CHR '' '' = int (length tok)" using assms(2) by (rule Index_first)
  have "slice_to ?t (int (length tok)) = Some tok"
    unfolding slice_to_def by (rule slice_to_append)
  with Command_after_prefix [OF p t h] j show ?thesis by simp
qed

lemma Command_panics_iff:
  "Command m = None \<longleftrightarrow>
     m \<noteq> [] \<and>
     (if HasPrefix m
      then (\<exists>p t. m = p @ CHR '' '' # t \<and> CHR '' '' \<notin> set p \<and> t \<noteq> [] \<and> CHR '' '' \<notin> set t)
      else CHR '' '' \<notin> set m)"
proof (cases "HasPrefix m")
  case False
  have "Command m = None \<longleftrightarrow> m \<noteq> [] \<and> CHR '' '' \<notin> set m"
    using False Command_tail_None [of m "CHR '' ''"]
    by (cases "m = []") (simp_all add: Command_def IsEmpty_def)
  with False show ?thesis by simp
next
  case True
  then have ne: "m \<noteq> []" by (auto simp: HasPrefix_def IsEmpty_def)
  let ?R = "\<exists>p t. m = p @ CHR '' '' # t \<and> CHR '' '' \<notin> set p \<and> t \<noteq> [] \<and> CHR '' '' \<notin> set t"
  have "Command m = None \<longleftrightarrow> ?R"
  proof
    assume ?R
    then obtain p t where m: "m = p @ CHR '' '' # t" and pt: "CHR '' '' \<notin> set p" "t \<noteq> []"
        "CHR '' '' \<notin> set t" by blast
    from True have "HasPrefix (p @ CHR '' '' # t)" by (simp only: m)
    from Command_after_prefix [OF pt(1,2) this] pt(3) Command_tail_None [of t "CHR '' ''"]
    have "Command (p @ CHR '' '' # t) = None" by simp
    then show "Command m = None" by (simp only: m)
  next
    assume none: "Command m = None"
    have sp: "CHR '' '' \<in> set m"
    proof (rule ccontr)
      assume "CHR '' '' \<notin> set m"
      then have "Index m CHR '' '' = -1" by (rule Index_notin)
      with ne True have "Command m = Some []" by (simp add: Command_def IsEmpty_def)
      with none show False by simp
    qed
    then obtain p t where m: "m = p @ CHR '' '' # t" and p: "CHR '' '' \<notin> set p"
        and i: "Index m CHR '' '' = int (length p)"
      using Index_split by blast
    have t: "t \<noteq> []"
    proof
      assume "t = []"
      with m i have "\<not> Index m CHR '' '' + 1 < int (length m)" by simp
      with ne True have "Command m = Some []" by (simp add: Command_def IsEmpty_def)
      with none show False by simp
    qed
    from True have "HasPrefix (p @ CHR '' '' # t)" by (simp only: m)
    from none have "Command (p @ CHR '' '' # t) = None" by (simp only: m)
    with Command_after_prefix [OF p t \<open>HasPrefix (p @ CHR '' '' # t)\<close>]
      Command_tail_None [of t "CHR '' ''"]
    have "CHR '' '' \<notin> set t" by simp
    with m p t show ?R by blast
  qed
  with True ne show ?thesis by simp
qed

text \<open>
  C1 (totality of the accessors). \<open>Command\<close> ends with \<open>s[:strings.Index(s, " ")]\<close>
  and does not test the index: on a line that is a single word, and on a prefixed line
  whose command token is followed by no space, the index is \<open>-1\<close> and the slice
  expression panics, where \<open>Middle\<close> guards the same search with \<open>i > -1\<close>. The claim
  says that \<open>Command\<close> returns a value on exactly these two lines; the code does not.
\<close>

theorem Command_panics_without_space:
  "Command ''PING'' = None \<and> Command '':nick CMD'' = None"
  by (simp add: Command_def IsEmpty_def HasPrefix_def slice_to_def slice_from_def slice_def)

text \<open>
  C3 (a command without parameters gives the empty string). Same defect as C1: on
  \<open>QUIT\<close> and on \<open>:nick QUIT\<close> the command token is followed by no space and \<open>Command\<close>
  panics instead of returning the empty string.
\<close>

theorem Command_without_parameters_is_not_empty:
  "Command ''QUIT'' = None \<and> Command ''QUIT'' \<noteq> Some [] \<and> Command '':nick QUIT'' = None"
  by (simp add: Command_def IsEmpty_def HasPrefix_def slice_to_def slice_from_def slice_def)

subsection \<open>Prefix\<close>

text \<open>
  On a line with a prefix \<open>Prefix\<close> returns the prefix; it panics exactly on a line that
  starts with a space.
\<close>

lemma Prefix_of_prefixed_line:
  "CHR '' '' \<notin> set p \<Longrightarrow> Prefix (CHR '':'' # p @ CHR '' '' # rest) = Some p"
proof -
  assume "CHR '' '' \<notin> set p"
  then have "CHR '' '' \<notin> set (CHR '':'' # p)" by simp
  then have "Index ((CHR '':'' # p) @ CHR '' '' # rest) CHR '' '' = int (length (CHR '':'' # p))"
    by (rule Index_first)
  then show ?thesis by (simp add: Prefix_def slice_def)
qed

lemma Prefix_panics_iff: "Prefix m = None \<longleftrightarrow> (\<exists>r. m = CHR '' '' # r)"
proof (cases m)
  case Nil
  then show ?thesis by (simp add: Prefix_def)
next
  case (Cons x r)
  have "Index r CHR '' '' < int (length r)" by (rule Index_lt)
  moreover have "-1 \<le> Index r CHR '' ''" by (rule Index_ge)
  ultimately show ?thesis using Cons
    by (auto simp: Prefix_def Let_def slice_def)
qed

text \<open>
  C2 (no prefix gives the empty Entity). \<open>Prefix\<close> stores the empty string when the line
  has no prefix but does not return: the search for the first space runs all the same, and
  on \<open>PING foo\<close> the result is the text between index 1 and that space.
\<close>

theorem Prefix_of_unprefixed_line:
  "\<not> HasPrefix ''PING foo'' \<and> Prefix ''PING foo'' = Some ''ING''"
  by (simp add: Prefix_def IsEmpty_def HasPrefix_def slice_def)

subsection \<open>ParseChannelModes\<close>

lemma modes_loop_sigil:
  "is_sigil x \<Longrightarrow> modes_loop (x # xs) cm = modes_loop xs (cm OR sigil_mode x)"
  by (auto simp: is_sigil_def sigil_mode_def)

lemma modes_loop_other: "\<not> is_sigil x \<Longrightarrow> modes_loop (x # xs) cm = (x # xs, cm)"
  by (simp add: is_sigil_def)

lemma modes_loop_scan:
  "modes_loop s cm =
     (if dropWhile is_sigil s = [] then ([], 0)
      else (dropWhile is_sigil s, or_modes (takeWhile is_sigil s) cm))"
proof (induction s arbitrary: cm)
  case Nil
  show ?case by simp
next
  case (Cons x xs)
  show ?case
  proof (cases "is_sigil x")
    case True
    have "modes_loop (x # xs) cm = modes_loop xs (cm OR sigil_mode x)"
      using True by (rule modes_loop_sigil)
    also have "\<dots> = (if dropWhile is_sigil xs = [] then ([], 0)
        else (dropWhile is_sigil xs, or_modes (takeWhile is_sigil xs) (cm OR sigil_mode x)))"
      by (rule Cons.IH)
    finally show ?thesis using True by (simp add: or_modes_def)
  next
    case False
    then show ?thesis by (simp add: modes_loop_other or_modes_def del: modes_loop.simps)
  qed
qed

text \<open>
  C4 as stated (an input of sigils only gives the empty nickname with the accumulated
  bits) fails: the function ends with \<open>return "", 0\<close>, so \<open>@\<close> gives mode 0 and not \<open>CmOp\<close>.
\<close>

theorem ParseChannelModes_all_sigils_counterexample:
  "ParseChannelModes ''@'' = ([], 0) \<and> ParseChannelModes ''@'' \<noteq> ([], CmOp)"
  by (simp add: ParseChannelModes_def CmOp_def)

text \<open>
  C4, amended. The scan passes the leading sigils, each one adding its bit by OR, and stops
  at the first other character: the nickname is the text from that character on, returned
  with the bits of the sigils before it. When the input has sigils only (or is empty) the
  result is the empty nickname and mode 0: the bits are discarded.
\<close>

theorem ParseChannelModes_scan:
  "ParseChannelModes s =
     (if dropWhile is_sigil s = [] then ([], 0)
      else (dropWhile is_sigil s, or_modes (takeWhile is_sigil s) 0))"
  by (simp add: ParseChannelModes_def modes_loop_scan)

theorem ParseChannelModes_scan_witness:
  "ParseChannelModes ''&@SomeNick'' = (''SomeNick'', 12) \<and> ParseChannelModes ''~+'' = ([], 0)"
  using ParseChannelModes_scan [of "''&@SomeNick''"] ParseChannelModes_scan [of "''~+''"]
  by (simp add: is_sigil_def sigil_mode_def or_modes_def CmAdmin_def CmOp_def)

subsection \<open>StripControlCodes\<close>

text \<open>
  C5 (a comma is absorbed only when a digit follows). After two foreground digits (mode 3)
  the code looks one character ahead; after one foreground digit (mode 2) it takes the comma
  without looking. On the color marker, \<open>1\<close>, a comma and \<open>a\<close> the comma is dropped and the
  output is \<open>a\<close>, where the claim has \<open>,a\<close>; after two digits the comma is kept.
\<close>

theorem StripControlCodes_drops_comma_after_one_digit:
  "StripControlCodes [CHR 0x03, CHR ''1'', CHR '','', CHR ''a''] = Some ''a'' \<and>
   StripControlCodes [CHR 0x03, CHR ''1'', CHR ''2'', CHR '','', CHR ''a''] = Some '',a''"
  by (simp add: StripControlCodes_def byte_def)

lemma high_not_control: "high_byte c \<Longrightarrow> \<not> control_byte c"
  by (auto simp: high_byte_def control_byte_def)

lemma in_range_high: "in_range lo hi c \<Longrightarrow> 0x80 \<le> lo \<Longrightarrow> high_byte c"
  by (simp add: in_range_def high_byte_def)

lemma set_take_Suc0: "b \<in> set (take (Suc 0) xs) \<Longrightarrow> b = xs ! 0"
  by (cases xs) auto

lemma set_take_2: "b \<in> set (take 2 xs) \<Longrightarrow> b = xs ! 0 \<or> b = xs ! 1"
  by (cases xs; cases "tl xs") (auto simp: numeral_2_eq_2)

lemma set_take_3: "b \<in> set (take 3 xs) \<Longrightarrow> b = xs ! 0 \<or> b = xs ! 1 \<or> b = xs ! 2"
  by (cases xs; cases "tl xs"; cases "tl (tl xs)") (auto simp: numeral_3_eq_3)

lemma rune_len_cases:
  "rune_len (x # xs) = 1 \<or>
   rune_len (x # xs) = 2 \<and> high_byte (xs ! 0) \<or>
   rune_len (x # xs) = 3 \<and> high_byte (xs ! 0) \<and> high_byte (xs ! 1) \<or>
   rune_len (x # xs) = 4 \<and> high_byte (xs ! 0) \<and> high_byte (xs ! 1) \<and> high_byte (xs ! 2)"
  by (auto simp: Let_def in_range_def high_byte_def)

lemma rune_tail_high:
  assumes b: "b \<in> set (take (rune_len (x # xs) - 1) xs)"
  shows "high_byte b"
proof -
  let ?n = "rune_len (x # xs)"
  consider "?n = 1"
    | "?n = 2" "high_byte (xs ! 0)"
    | "?n = 3" "high_byte (xs ! 0)" "high_byte (xs ! 1)"
    | "?n = 4" "high_byte (xs ! 0)" "high_byte (xs ! 1)" "high_byte (xs ! 2)"
    using rune_len_cases [of x xs] by blast
  then show ?thesis
  proof cases
    case 1
    with b show ?thesis by (simp del: rune_len.simps)
  next
    case 2
    with b have "b \<in> set (take (Suc 0) xs)" by (simp del: rune_len.simps)
    then have "b = xs ! 0" by (rule set_take_Suc0)
    with 2 show ?thesis by simp
  next
    case 3
    with b have "b \<in> set (take 2 xs)" by (simp del: rune_len.simps)
    then have "b = xs ! 0 \<or> b = xs ! 1" by (rule set_take_2)
    with 3 show ?thesis by blast
  next
    case 4
    with b have "b \<in> set (take 3 xs)" by (simp del: rune_len.simps)
    then have "b = xs ! 0 \<or> b = xs ! 1 \<or> b = xs ! 2" by (rule set_take_3)
    with 4 show ?thesis by blast
  qed
qed

lemma explode_rune_ok: "\<forall>e \<in> set (explode s). rune_ok e"
proof (induction s rule: explode.induct)
  case 1
  show ?case by simp
next
  case (2 x xs)
  have "rune_ok (x # take (rune_len (x # xs) - 1) xs)"
    unfolding rune_ok_def using rune_tail_high [of _ x xs] high_not_control by auto
  with 2 show ?case by (simp add: Let_def del: rune_len.simps)
qed

lemma concat_explode: "concat (explode s) = s"
  by (induction s rule: explode.induct) (simp_all add: Let_def del: rune_len.simps)

lemma strip_loop_nonzero_step:
  assumes "m \<noteq> 0"
  shows "(\<exists>m'. strip_loop m r (ci # rest) = strip_loop m' r rest) \<or>
     strip_loop m r (ci # rest) = strip_loop 0 r (ci # rest)"
proof -
  note step = strip_loop.simps(2) [of m r ci rest]
  consider "m = 1" | "m = 2" | "m = 3" | "m = 4" | "m = 5" | "5 < m"
    using assms by arith
  then show ?thesis unfolding step by cases (auto simp del: strip_loop.simps)
qed

lemma strip_loop_zero_step:
  assumes "ci \<noteq> []"
  shows "strip_loop 0 r (ci # rest) =
     (if control_byte (hd ci) then strip_loop (if byte (hd ci) = 0x03 then 1 else 0) r rest
      else strip_loop 0 (r @ ci) rest)"
  using assms by (cases ci) (auto simp: control_byte_def)

lemma strip_loop_clean:
  assumes "\<forall>e \<in> set c. rune_ok e"
  shows "\<exists>out. strip_loop m r c = Some (r @ out) \<and> (\<forall>b \<in> set out. \<not> control_byte b)"
  using assms
proof (induction c arbitrary: m r)
  case Nil
  show ?case by simp
next
  case (Cons ci rest)
  from Cons.prems have ok: "rune_ok ci" and okr: "\<forall>e \<in> set rest. rune_ok e" by simp_all
  note IH = Cons.IH [OF okr]
  from ok have ne: "ci \<noteq> []" and tl: "\<forall>b \<in> set (tl ci). \<not> control_byte b"
    by (simp_all add: rune_ok_def)
  have zero: "\<exists>out. strip_loop 0 r (ci # rest) = Some (r @ out) \<and>
      (\<forall>b \<in> set out. \<not> control_byte b)" for r
  proof (cases "control_byte (hd ci)")
    case True
    then show ?thesis using IH by (simp only: strip_loop_zero_step [OF ne] if_True)
  next
    case False
    obtain out where out: "strip_loop 0 (r @ ci) rest = Some ((r @ ci) @ out)"
        "\<forall>b \<in> set out. \<not> control_byte b"
      using IH [of 0 "r @ ci"] by blast
    have "\<forall>b \<in> set ci. \<not> control_byte b"
      using False tl ne by (cases ci) auto
    with out have "strip_loop 0 r (ci # rest) = Some (r @ (ci @ out)) \<and>
        (\<forall>b \<in> set (ci @ out). \<not> control_byte b)"
      using False by (simp only: strip_loop_zero_step [OF ne] if_False) auto
    then show ?thesis by blast
  qed
  show ?case
  proof (cases "m = 0")
    case True
    with zero show ?thesis by simp
  next
    case False
    from strip_loop_nonzero_step [OF False, of r ci rest] show ?thesis
    proof
      assume "\<exists>m'. strip_loop m r (ci # rest) = strip_loop m' r rest"
      then obtain m' where "strip_loop m r (ci # rest) = strip_loop m' r rest" by blast
      with IH [of m' r] show ?thesis by simp
    next
      assume "strip_loop m r (ci # rest) = strip_loop 0 r (ci # rest)"
      with zero [of r] show ?thesis by simp
    qed
  qed
qed

lemma strip_loop_identity:
  "\<forall>b \<in> set s. \<not> control_byte b \<Longrightarrow> strip_loop 0 r (explode s) = Some (r @ s)"
proof (induction s arbitrary: r rule: explode.induct)
  case 1
  show ?case by simp
next
  case (2 x xs)
  let ?k = "rune_len (x # xs) - 1"
  let ?e = "x # take ?k xs"
  have ex: "explode (x # xs) = ?e # explode (drop ?k xs)"
    by (simp add: Let_def del: rune_len.simps)
  from "2.prems" have x: "\<not> control_byte (hd ?e)" by simp
  from "2.prems" have "\<forall>b \<in> set (drop ?k xs). \<not> control_byte b"
    by (auto dest: in_set_dropD)
  then have "strip_loop 0 (r @ ?e) (explode (drop ?k xs)) = Some ((r @ ?e) @ drop ?k xs)"
    using "2.IH" [of "rune_len (x # xs)" "r @ ?e"] by simp
  moreover have "strip_loop 0 r (?e # explode (drop ?k xs)) =
      strip_loop 0 (r @ ?e) (explode (drop ?k xs))"
    using x by (simp only: strip_loop_zero_step [of ?e] list.simps if_False simp_thms)
  ultimately show ?case by (simp only: ex) simp
qed

text \<open>
  C9. \<open>StripControlCodes\<close> returns on every input, and stripping its result again
  gives the same result.
\<close>

theorem StripControlCodes_idempotent:
  "StripControlCodes s \<noteq> None \<and>
   (StripControlCodes s \<bind> StripControlCodes) = StripControlCodes s"
proof -
  obtain out where out: "strip_loop 0 [] (explode s) = Some ([] @ out)"
      "\<forall>b \<in> set out. \<not> control_byte b"
    using strip_loop_clean [where m = 0 and r = "[]" and c = "explode s", OF explode_rune_ok]
    by blast
  then have 1: "StripControlCodes s = Some out" by (simp add: StripControlCodes_def)
  have 2: "StripControlCodes out = Some out"
    using strip_loop_identity [OF out(2), of "[]"] by (simp add: StripControlCodes_def)
  from 1 2 show ?thesis by simp
qed

theorem StripControlCodes_idempotent_witness:
  "StripControlCodes [CHR 0x02, CHR ''b'', CHR 0x03, CHR ''4'', CHR ''r''] = Some ''br'' \<and>
   StripControlCodes ''br'' = Some ''br''"
  using StripControlCodes_idempotent [of "[CHR 0x02, CHR ''b'', CHR 0x03, CHR ''4'', CHR ''r'']"]
  by (simp add: StripControlCodes_def byte_def)

subsection \<open>The classification of an Entity\<close>

lemma IsChan_iff: "IsChan e \<longleftrightarrow> (\<exists>r. e = CHR ''#'' # r \<and> r \<noteq> [])"
  by (cases e) (auto simp: IsChan_def strings_HasPrefix_def)

lemma IsHostmask_iff:
  "IsHostmask e \<longleftrightarrow>
     (\<exists>u v w. e = u @ CHR ''!'' # v @ CHR ''@'' # w \<and>
        CHR ''!'' \<notin> set u \<and> CHR ''@'' \<notin> set u \<and> CHR ''@'' \<notin> set v)"
proof
  assume h: "IsHostmask e"
  then have a: "0 \<le> Index e CHR ''!''" and ab: "Index e CHR ''!'' < Index e CHR ''@''"
    by (auto simp: IsHostmask_def Let_def)
  from a obtain u r where u: "e = u @ CHR ''!'' # r" "CHR ''!'' \<notin> set u"
      "Index e CHR ''!'' = int (length u)"
    using Index_split [of "CHR ''!''" e] Index_in by blast
  from a ab have "0 \<le> Index e CHR ''@''" by arith
  then obtain u' w where u': "e = u' @ CHR ''@'' # w" "CHR ''@'' \<notin> set u'"
      "Index e CHR ''@'' = int (length u')"
    using Index_split [of "CHR ''@''" e] Index_in by blast
  from ab u(3) u'(3) have len: "length u < length u'" by simp
  from u(1) u'(1) have eq: "u @ CHR ''!'' # r = u' @ CHR ''@'' # w" by simp
  from len eq obtain v where v: "u' = u @ CHR ''!'' # v"
    by (auto simp: append_eq_append_conv2 append_eq_Cons_conv Cons_eq_append_conv)
  with u' u show "\<exists>u v w. e = u @ CHR ''!'' # v @ CHR ''@'' # w \<and>
        CHR ''!'' \<notin> set u \<and> CHR ''@'' \<notin> set u \<and> CHR ''@'' \<notin> set v"
    by auto
next
  assume "\<exists>u v w. e = u @ CHR ''!'' # v @ CHR ''@'' # w \<and>
        CHR ''!'' \<notin> set u \<and> CHR ''@'' \<notin> set u \<and> CHR ''@'' \<notin> set v"
  then obtain u v w where e: "e = u @ CHR ''!'' # v @ CHR ''@'' # w"
    and n: "CHR ''!'' \<notin> set u" "CHR ''@'' \<notin> set u" "CHR ''@'' \<notin> set v" by blast
  have a: "Index e CHR ''!'' = int (length u)" using e n(1) by (simp add: Index_first)
  have "CHR ''@'' \<notin> set (u @ CHR ''!'' # v)" using n by simp
  then have "Index ((u @ CHR ''!'' # v) @ CHR ''@'' # w) CHR ''@'' = int (length (u @ CHR ''!'' # v))"
    by (rule Index_first)
  then have b: "Index e CHR ''@'' = int (length u) + 1 + int (length v)" using e by simp
  show "IsHostmask e" using a b by (simp add: IsHostmask_def)
qed

lemma at_before_bang:
  assumes "e = u @ CHR ''@'' # v" "CHR ''!'' \<notin> set u"
  shows "\<not> IsHostmask e"
proof
  assume "IsHostmask e"
  then have a: "0 \<le> Index e CHR ''!''" and ab: "Index e CHR ''!'' < Index e CHR ''@''"
    by (auto simp: IsHostmask_def Let_def)
  from a obtain p r where p: "e = p @ CHR ''!'' # r" "CHR ''!'' \<notin> set p"
      "Index e CHR ''!'' = int (length p)"
    using Index_split [of "CHR ''!''" e] Index_in by blast
  from a ab have "0 \<le> Index e CHR ''@''" by arith
  then obtain q w where q: "e = q @ CHR ''@'' # w" "CHR ''@'' \<notin> set q"
      "Index e CHR ''@'' = int (length q)"
    using Index_split [of "CHR ''@''" e] Index_in by blast
  from ab p(3) q(3) have len: "length p < length q" by simp
  have "length q \<le> length u"
  proof (rule ccontr)
    assume "\<not> length q \<le> length u"
    then have "length u < length q" by simp
    moreover have "q @ CHR ''@'' # w = u @ CHR ''@'' # v" using q(1) assms(1) by simp
    ultimately have "CHR ''@'' \<in> set q"
      by (auto simp: append_eq_append_conv2 append_eq_Cons_conv Cons_eq_append_conv)
    with q(2) show False by simp
  qed
  with len have "length p < length u" by simp
  moreover have "p @ CHR ''!'' # r = u @ CHR ''@'' # v" using p(1) assms(1) by simp
  ultimately have "CHR ''!'' \<in> set u"
    by (auto simp: append_eq_append_conv2 append_eq_Cons_conv Cons_eq_append_conv)
  with assms(2) show False by simp
qed

text \<open>
  C6, amended. Every string satisfies at least one of the three predicates, and \<open>IsName\<close>
  holds exactly when neither \<open>IsChan\<close> nor \<open>IsHostmask\<close> does. \<open>IsChan\<close> holds exactly for
  \<open>#\<close> followed by at least one byte; \<open>IsHostmask\<close> holds exactly when the first \<open>!\<close>
  comes before the first \<open>@\<close>. A string with an \<open>@\<close> before any \<open>!\<close> is never a hostmask,
  and is a name unless it is a channel. (\<open>IsChan\<close> and \<open>IsHostmask\<close> do not exclude each
  other.)
\<close>

theorem Entity_classification:
  "(IsChan e \<or> IsHostmask e \<or> IsName e) \<and>
   (IsName e \<longleftrightarrow> \<not> IsChan e \<and> \<not> IsHostmask e) \<and>
   (IsChan e \<longleftrightarrow> (\<exists>r. e = CHR ''#'' # r \<and> r \<noteq> [])) \<and>
   (IsHostmask e \<longleftrightarrow>
      (\<exists>u v w. e = u @ CHR ''!'' # v @ CHR ''@'' # w \<and>
         CHR ''!'' \<notin> set u \<and> CHR ''@'' \<notin> set u \<and> CHR ''@'' \<notin> set v)) \<and>
   (\<forall>u v. e = u @ CHR ''@'' # v \<and> CHR ''!'' \<notin> set u \<longrightarrow>
      \<not> IsHostmask e \<and> (IsName e \<longleftrightarrow> \<not> IsChan e))"
proof -
  have 1: "IsChan e \<or> IsHostmask e \<or> IsName e" by (auto simp: IsName_def)
  have 2: "IsName e \<longleftrightarrow> \<not> IsChan e \<and> \<not> IsHostmask e" by (simp add: IsName_def)
  have 5: "\<forall>u v. e = u @ CHR ''@'' # v \<and> CHR ''!'' \<notin> set u \<longrightarrow>
      \<not> IsHostmask e \<and> (IsName e \<longleftrightarrow> \<not> IsChan e)"
    using at_before_bang by (auto simp: IsName_def)
  from 1 2 IsChan_iff [of e] IsHostmask_iff [of e] 5 show ?thesis by blast
qed

theorem Entity_classification_witness:
  "\<not> IsHostmask ''a@b!c'' \<and> IsName ''a@b!c'' \<and> IsHostmask ''n!u@h'' \<and> \<not> IsName ''n!u@h''"
proof -
  have "''a@b!c'' = ''a'' @ CHR ''@'' # ''b!c'' \<and> CHR ''!'' \<notin> set ''a''" by simp
  then have a: "\<not> IsHostmask ''a@b!c'' \<and> (IsName ''a@b!c'' \<longleftrightarrow> \<not> IsChan ''a@b!c'')"
    using Entity_classification [of "''a@b!c''"] by blast
  have c: "\<not> IsChan ''a@b!c''" by (simp add: IsChan_def strings_HasPrefix_def)
  have "''n!u@h'' = ''n'' @ CHR ''!'' # ''u'' @ CHR ''@'' # ''h'' \<and>
        CHR ''!'' \<notin> set ''n'' \<and> CHR ''@'' \<notin> set ''n'' \<and> CHR ''@'' \<notin> set ''u''" by simp
  then have h: "IsHostmask ''n!u@h''" using Entity_classification [of "''n!u@h''"] by blast
  then have "\<not> IsName ''n!u@h''" using Entity_classification [of "''n!u@h''"] by blast
  with a c h show ?thesis by simp
qed

text \<open>
  C6 as stated (exactly one of the three predicates holds; \<open>@\<close> before \<open>!\<close> makes a name)
  fails: \<open>#a!b@c\<close> is a channel and a hostmask at once, and \<open>#@!\<close> has \<open>@\<close> before \<open>!\<close>
  but is a channel, not a name.
\<close>

theorem Entity_classes_overlap_counterexample:
  "IsChan ''#a!b@c'' \<and> IsHostmask ''#a!b@c'' \<and> \<not> IsName ''#a!b@c'' \<and>
   IsChan ''#@!'' \<and> \<not> IsHostmask ''#@!'' \<and> \<not> IsName ''#@!''"
  by (simp add: IsChan_def IsHostmask_def IsName_def strings_HasPrefix_def)

subsection \<open>IsNumeric and Numeric\<close>

lemma atoi_digits_eq:
  "atoi_digits n ds =
     (if list_all isdigit ds then Some (n * 10 ^ length ds + dec_value ds) else None)"
  by (induction ds arbitrary: n) (simp_all add: algebra_simps)

lemma sign_not_digit: "\<not> isdigit CHR ''+''" "\<not> isdigit CHR ''-''"
  by (simp_all add: isdigit_def byte_def)

lemma Atoi_eq: "Atoi c = (if is_base10_int c then Some (signed_value c) else None)"
proof (cases c)
  case Nil
  then show ?thesis by (simp add: Atoi_def is_base10_int_def unsigned_part_def)
next
  case (Cons x r)
  show ?thesis
  proof (cases "x = CHR ''-'' \<or> x = CHR ''+''")
    case True
    then show ?thesis using Cons
      by (auto simp: Atoi_def is_base10_int_def unsigned_part_def signed_value_def
          atoi_digits_eq atoi_range_def)
  next
    case False
    then show ?thesis using Cons
      by (auto simp: Atoi_def is_base10_int_def unsigned_part_def signed_value_def
          atoi_digits_eq atoi_range_def)
  qed
qed

text \<open>
  C7, amended. On every line on which \<open>Command\<close> returns a value \<open>c\<close>, \<open>IsNumeric\<close> is true
  exactly when \<open>c\<close> is a base-10 integer literal (an optional sign \<open>+\<close> or \<open>-\<close>, then one or
  more decimal digits, the value fitting \<open>int\<close>); \<open>Numeric\<close> is then that value, and \<open>-1\<close>
  otherwise.
\<close>

theorem numeric_command:
  "Command m = Some c \<Longrightarrow>
     IsNumeric m = Some (is_base10_int c) \<and>
     Numeric m = Some (if is_base10_int c then signed_value c else - 1)"
  by (simp add: IsNumeric_def Numeric_def Atoi_eq)

theorem numeric_command_witness:
  "Command '':SomeNick!SomeUser@SomeHost 671 yournick othernick :is using a secure connection''
     = Some ''671'' \<and>
   IsNumeric '':SomeNick!SomeUser@SomeHost 671 yournick othernick :is using a secure connection''
     = Some True \<and>
   Numeric '':SomeNick!SomeUser@SomeHost 671 yournick othernick :is using a secure connection''
     = Some 671 \<and>
   Command ''privmsg #chan :hi'' = Some ''PRIVMSG'' \<and>
   Numeric ''privmsg #chan :hi'' = Some (- 1)"
proof -
  have c: "Command '':SomeNick!SomeUser@SomeHost 671 yournick othernick :is using a secure connection''
     = Some ''671''"
    by (simp add: Command_def IsEmpty_def HasPrefix_def slice_to_def slice_from_def slice_def
        ToUpper_def upper_byte_def byte_def)
  have d: "Command ''privmsg #chan :hi'' = Some ''PRIVMSG''"
    by code_simp
  have v: "is_base10_int ''671'' \<and> signed_value ''671'' = 671 \<and> \<not> is_base10_int ''PRIVMSG''"
    by (simp add: is_base10_int_def unsigned_part_def signed_value_def isdigit_def byte_def)
  from numeric_command [OF c] numeric_command [OF d] c d v show ?thesis by simp
qed

text \<open>
  C7 as stated (numeric exactly when the command consists only of decimal digits) fails in
  both directions: the command \<open>+5\<close> is numeric with value 5 although \<open>+\<close> is no digit,
  and the empty command of the line \<open>:nick\<close> has no character that is not a digit, yet is
  not numeric.
\<close>

theorem IsNumeric_signed_counterexample:
  "Command ''+5 x'' = Some ''+5'' \<and> \<not> list_all isdigit ''+5'' \<and>
   IsNumeric ''+5 x'' = Some True \<and> Numeric ''+5 x'' = Some 5 \<and>
   Command '':nick'' = Some [] \<and> list_all isdigit [] \<and> IsNumeric '':nick'' = Some False"
  by (simp add: IsNumeric_def Numeric_def Command_def IsEmpty_def HasPrefix_def slice_to_def
      slice_from_def slice_def ToUpper_def upper_byte_def byte_def Atoi_def atoi_range_def
      isdigit_def)

subsection \<open>Trailing and Middle on a complete line\<close>

lemma skip_prefix_split:
  assumes "CHR '' '' \<notin> set u" "v \<noteq> []"
  shows "skip_prefix (CHR '':'' # u @ CHR '' '' # v) = Some (Some v)"
proof -
  have i: "Index (u @ CHR '' '' # v) CHR '' '' = int (length u)"
    using assms(1) by (rule Index_first)
  show ?thesis using assms(2)
    by (simp add: skip_prefix_def HasPrefix_def IsEmpty_def slice_from_1 i slice_from_Suc Let_def)
qed

lemma Trailing_after_prefix:
  assumes "CHR '' '' \<notin> set u" "CHR '':'' \<notin> set w"
  shows "Trailing (CHR '':'' # u @ CHR '' '' # w @ CHR '':'' # t) = Some t"
proof -
  let ?v = "w @ CHR '':'' # t"
  have sp: "skip_prefix (CHR '':'' # u @ CHR '' '' # ?v) = Some (Some ?v)"
    using assms(1) by (rule skip_prefix_split) simp
  have i: "Index ?v CHR '':'' = int (length w)" using assms(2) by (rule Index_first)
  have "Trailing (CHR '':'' # u @ CHR '' '' # ?v) =
      (if int (length w) + 1 < int (length ?v) then slice_from ?v (int (length w) + 1)
       else Some [])"
    by (simp add: Trailing_def IsEmpty_def sp i Let_def del: append.simps)
  then show ?thesis by (cases t) (simp_all add: slice_from_Suc)
qed

lemma first_space:
  "\<exists>u p'. p @ CHR '' '' # r = u @ CHR '' '' # p' @ r \<and> CHR '' '' \<notin> set u \<and> set p' \<subseteq> insert CHR '' '' (set p)"
proof (cases "CHR '' '' \<in> set p")
  case True
  then obtain u v where "p = u @ CHR '' '' # v" "CHR '' '' \<notin> set u" by (meson split_list_first)
  then have "p @ CHR '' '' # r = u @ CHR '' '' # (v @ [CHR '' '']) @ r \<and> CHR '' '' \<notin> set u
      \<and> set (v @ [CHR '' '']) \<subseteq> insert CHR '' '' (set p)" by auto
  then show ?thesis by blast
next
  case False
  then have "p @ CHR '' '' # r = p @ CHR '' '' # [] @ r \<and> CHR '' '' \<notin> set p
      \<and> set [] \<subseteq> insert CHR '' '' (set p)" by simp
  then show ?thesis by blast
qed

lemma Trailing_prefixed_line:
  assumes "CHR '':'' \<notin> set p" "CHR '':'' \<notin> set cmd" "CHR '':'' \<notin> set mid"
  shows "Trailing (prefixed_line p cmd mid t) = Some t"
proof -
  let ?r = "cmd @ CHR '' '' # mid @ [CHR '' '']"
  obtain u p' where u: "p @ CHR '' '' # ?r = u @ CHR '' '' # p' @ ?r" "CHR '' '' \<notin> set u"
      "set p' \<subseteq> insert CHR '' '' (set p)"
    using first_space [of p ?r] by blast
  have w: "CHR '':'' \<notin> set (p' @ ?r)" using assms u(3) by auto
  have "prefixed_line p cmd mid t = CHR '':'' # (p @ CHR '' '' # ?r) @ CHR '':'' # t"
    by (simp add: prefixed_line_def)
  also have "\<dots> = CHR '':'' # u @ CHR '' '' # (p' @ ?r) @ CHR '':'' # t"
    by (simp only: u(1)) simp
  finally show ?thesis using Trailing_after_prefix [OF u(2) w, of t] by simp
qed

lemma TrimRight_space: "TrimRight (s @ '' '') '' '' = TrimRight s '' ''"
  by (simp add: TrimRight_def in_cutset_def)

lemma TrimRight_id: "s = [] \<or> last s \<noteq> CHR '' '' \<Longrightarrow> TrimRight s '' '' = s"
proof (cases "s = []")
  case True
  then show ?thesis by (simp add: TrimRight_def)
next
  case False
  assume "s = [] \<or> last s \<noteq> CHR '' ''"
  with False have "hd (rev s) \<noteq> CHR '' ''" by (simp add: hd_rev)
  with False have "dropWhile (in_cutset '' '') (rev s) = rev s"
    by (cases "rev s") (auto simp: in_cutset_def)
  then show ?thesis by (simp add: TrimRight_def)
qed

lemma Middle_prefixed_line:
  assumes "CHR '':'' \<notin> set cmd" "CHR '':'' \<notin> set mid"
    and "CHR '' '' \<notin> set p" "CHR '' '' \<notin> set cmd"
  shows "Middle (prefixed_line p cmd mid t) = Some (TrimRight mid '' '')"
proof -
  let ?s1 = "mid @ CHR '' '' # CHR '':'' # t"
  let ?v = "cmd @ CHR '' '' # ?s1"
  have m: "prefixed_line p cmd mid t = CHR '':'' # p @ CHR '' '' # ?v"
    by (simp add: prefixed_line_def)
  have sp: "skip_prefix (CHR '':'' # p @ CHR '' '' # ?v) = Some (Some ?v)"
    using assms(3) by (rule skip_prefix_split) simp
  have i: "Index ?v CHR '' '' = int (length cmd)" using assms(4) by (rule Index_first)
  have s1: "slice_from ?v (int (length cmd) + 1) = Some ?s1" by (rule slice_from_Suc)
  have "CHR '':'' \<notin> set (mid @ '' '')" using assms(2) by simp
  then have "Index ((mid @ '' '') @ CHR '':'' # t) CHR '':'' = int (length (mid @ '' ''))"
    by (rule Index_first)
  then have j: "Index ?s1 CHR '':'' = int (length mid) + 1" by simp
  have "slice ((mid @ '' '') @ CHR '':'' # t) 0 (int (length (mid @ '' ''))) = Some (mid @ '' '')"
    by (rule slice_to_append)
  then have s2: "slice ?s1 0 (int (length mid) + 1) = Some (mid @ '' '')"
    by (simp add: add.commute)
  show ?thesis
    unfolding m Middle_def
    by (simp add: IsEmpty_def sp i s1 j s2 TrimRight_space Let_def del: append.simps)
qed

text \<open>
  C8, amended. On the line \<open>:p cmd mid :t\<close>, where \<open>p\<close>, \<open>cmd\<close> and \<open>mid\<close> contain no
  colon, \<open>Trailing\<close> returns \<open>t\<close> exactly, whatever \<open>t\<close> contains. When moreover \<open>p\<close> and
  \<open>cmd\<close> contain no space, \<open>Middle\<close> returns \<open>mid\<close> without its trailing spaces, which is
  \<open>mid\<close> itself when \<open>mid\<close> does not end with a space.
\<close>

theorem trailing_roundtrip:
  assumes "CHR '':'' \<notin> set p" "CHR '':'' \<notin> set cmd" "CHR '':'' \<notin> set mid"
  shows "Trailing (prefixed_line p cmd mid t) = Some t \<and>
         (CHR '' '' \<notin> set p \<and> CHR '' '' \<notin> set cmd \<longrightarrow>
            Middle (prefixed_line p cmd mid t) = Some (TrimRight mid '' '') \<and>
            (mid = [] \<or> last mid \<noteq> CHR '' '' \<longrightarrow>
               Middle (prefixed_line p cmd mid t) = Some mid))"
  using Trailing_prefixed_line [OF assms] Middle_prefixed_line [OF assms(2,3)] TrimRight_id [of mid]
  by simp

theorem trailing_roundtrip_witness:
  "Trailing '':SomeNick!SomeUser@SomeHost 671 yournick othernick :is using a secure connection''
     = Some ''is using a secure connection'' \<and>
   Middle '':SomeNick!SomeUser@SomeHost 671 yournick othernick :is using a secure connection''
     = Some ''yournick othernick''"
  using trailing_roundtrip [of "''SomeNick!SomeUser@SomeHost''" "''671''" "''yournick othernick''"
      "''is using a secure connection''"]
  by (simp add: prefixed_line_def TrimRight_def in_cutset_def)

text \<open>
  C8 as stated (only colons excluded from \<open>p\<close>, \<open>cmd\<close> and \<open>mid\<close>) fails for \<open>Middle\<close>:
  with \<open>mid\<close> the text \<open>x\<close> followed by a space the result is \<open>x\<close>, because \<open>Middle\<close> trims
  the spaces before the colon, and with a space inside \<open>p\<close> the second word of \<open>p\<close> is
  taken for the command and \<open>cmd\<close> becomes part of the result.
\<close>

theorem Middle_roundtrip_counterexample:
  "prefixed_line ''p'' ''c'' ''x '' ''t'' = '':p c x  :t'' \<and>
   Middle (prefixed_line ''p'' ''c'' ''x '' ''t'') = Some ''x'' \<and>
   prefixed_line ''a b'' ''c'' ''x'' ''t'' = '':a b c x :t'' \<and>
   Middle (prefixed_line ''a b'' ''c'' ''x'' ''t'') = Some ''c x''"
  by (simp add: prefixed_line_def Middle_def skip_prefix_def IsEmpty_def HasPrefix_def
      slice_from_def slice_def TrimRight_def in_cutset_def)

subsection \<open>NewMessage\<close>

lemma in_cutset_trimmed:
  "in_cutset [CHR 0x00, CHR 0x0A, CHR 0x0D] c \<longleftrightarrow> c \<in> trimmed_bytes"
  by (auto simp: in_cutset_def trimmed_bytes_def)

lemma Trim_decompose:
  fixes cs :: string
  defines "P \<equiv> in_cutset cs"
  shows "\<exists>l t. s = l @ Trim s cs @ t \<and> (\<forall>c \<in> set l. P c) \<and> (\<forall>c \<in> set t. P c) \<and>
           (Trim s cs = [] \<or> \<not> P (hd (Trim s cs)) \<and> \<not> P (last (Trim s cs)))"
proof -
  define x where "x = rev (dropWhile P (rev s))"
  define t where "t = rev (takeWhile P (rev s))"
  define l where "l = takeWhile P x"
  define r where "r = dropWhile P x"
  have r: "Trim s cs = r" by (simp add: Trim_def TrimLeft_def TrimRight_def r_def x_def P_def)
  have "rev (takeWhile P (rev s) @ dropWhile P (rev s)) = s"
    by (simp only: takeWhile_dropWhile_id rev_rev_ident)
  then have s: "s = x @ t" by (simp only: rev_append x_def t_def)
  have x: "x = l @ r" by (simp add: l_def r_def)
  have tP: "\<forall>c \<in> set t. P c" by (auto simp: t_def dest: set_takeWhileD)
  have lP: "\<forall>c \<in> set l. P c" by (auto simp: l_def dest: set_takeWhileD)
  have ends: "\<not> P (hd r) \<and> \<not> P (last r)" if ne: "r \<noteq> []"
  proof
    show "\<not> P (hd r)" using ne unfolding r_def by (rule hd_dropWhile)
    from ne x have xne: "x \<noteq> []" by simp
    then have dne: "dropWhile P (rev s) \<noteq> []" by (simp add: x_def)
    have "last r = last x" using ne x by simp
    also have "\<dots> = hd (dropWhile P (rev s))" using dne by (simp add: x_def last_rev)
    finally show "\<not> P (last r)" using hd_dropWhile [OF dne] by simp
  qed
  from s x have "s = l @ r @ t" by simp
  with r tP lP ends show ?thesis by auto
qed

text \<open>
  C10. \<open>NewMessage\<close> cuts the input into a leading run and a trailing run of NUL, LF and CR
  bytes and the text \<open>r\<close> between them, which neither starts nor ends with such a byte;
  the message is \<open>r\<close>, or the empty message when a NUL byte remains inside \<open>r\<close>.
\<close>

theorem NewMessage_trims_both_ends:
  "\<exists>l r t. s = l @ r @ t \<and> set l \<subseteq> trimmed_bytes \<and> set t \<subseteq> trimmed_bytes \<and>
     (r = [] \<or> hd r \<notin> trimmed_bytes \<and> last r \<notin> trimmed_bytes) \<and>
     NewMessage s = (if CHR 0x00 \<in> set r then [] else r)"
proof -
  let ?cs = "[CHR 0x00, CHR 0x0A, CHR 0x0D]"
  let ?r = "Trim s ?cs"
  obtain l t where d: "s = l @ ?r @ t" "\<forall>c \<in> set l. in_cutset ?cs c"
      "\<forall>c \<in> set t. in_cutset ?cs c"
      "?r = [] \<or> \<not> in_cutset ?cs (hd ?r) \<and> \<not> in_cutset ?cs (last ?r)"
    using Trim_decompose [of s ?cs] by blast
  have n: "NewMessage s = (if CHR 0x00 \<in> set ?r then [] else ?r)"
    by (simp add: NewMessage_def Let_def Index_neg_iff)
  from d(2,3) have "set l \<subseteq> trimmed_bytes" "set t \<subseteq> trimmed_bytes"
    by (auto simp: in_cutset_trimmed)
  moreover from d(4) have "?r = [] \<or> hd ?r \<notin> trimmed_bytes \<and> last ?r \<notin> trimmed_bytes"
    by (simp only: in_cutset_trimmed)
  ultimately show ?thesis using d(1) n by blast
qed

theorem NewMessage_trims_both_ends_witness:
  "NewMessage [CHR 0x0D, CHR 0x0A, CHR ''P'', CHR ''I'', CHR ''N'', CHR ''G''] = ''PING'' \<and>
   NewMessage [CHR 0x0A, CHR ''a'', CHR 0x00, CHR ''b'', CHR 0x0D] = []"
  using NewMessage_trims_both_ends [of "[CHR 0x0D, CHR 0x0A, CHR ''P'', CHR ''I'', CHR ''N'', CHR ''G'']"]
  by (simp add: NewMessage_def Trim_def TrimLeft_def TrimRight_def in_cutset_def)

end
